theory Spec2Isabelle
  imports Main "HOL-Library.Word"
begin

section \<open>CuteJson: the value model and the recursive-descent parser\<close>

text \<open>
  A shallow embedding of \<^verbatim>\<open>src/cutejson.cpp\<close>. A \<^verbatim>\<open>std::string_view\<close> is a
  \<open>string\<close> (a list of 8-bit characters), \<^verbatim>\<open>json.substr(i)\<close> is \<open>drop i json\<close>,
  \<^verbatim>\<open>json.size()\<close> is \<open>length json\<close>. Positions and counts are \<^verbatim>\<open>size_t\<close>; they
  never exceed the length of the input plus one, so they are modelled as \<open>nat\<close>.
\<close>

subsection \<open>Value model\<close>

text \<open>
  \<^verbatim>\<open>std::variant<std::nullptr_t, bool, int, double, std::string, JsonList, JsonDict>\<close>.
  The payload of \<^verbatim>\<open>int\<close> is a 32-bit two's complement word. The payload type of
  \<^verbatim>\<open>double\<close> is the type parameter \<open>'d\<close>: binary floating point is not modelled, and
  the library conversion that produces it is a parameter of the parser.
  \<^verbatim>\<open>JsonDict\<close> is a \<^verbatim>\<open>std::unordered_map\<close>; it is modelled as an association
  list with unique keys, read through \<open>map_of\<close>.
\<close>

datatype 'd JsonObject =
    JNull
  | JBool bool
  | JInt "32 word"
  | JDouble 'd
  | JString string
  | JList "'d JsonObject list"
  | JDict "(string \<times> 'd JsonObject) list"

text \<open>
  \<^verbatim>\<open>res.try_emplace(key, val)\<close>: inserts only when the key is absent.
\<close>

definition try_emplace ::
  "string \<Rightarrow> 'd JsonObject \<Rightarrow> (string \<times> 'd JsonObject) list \<Rightarrow> (string \<times> 'd JsonObject) list"
where
  "try_emplace key val res = (if map_of res key = None then res @ [(key, val)] else res)"

subsection \<open>Character constants\<close>

definition NUL :: char where "NUL = CHR 0x00"
definition BEL :: char where "BEL = CHR 0x07"
definition BS :: char where "BS = CHR 0x08"
definition TAB :: char where "TAB = CHR 0x09"
definition LF :: char where "LF = CHR 0x0A"
definition VT :: char where "VT = CHR 0x0B"
definition FF :: char where "FF = CHR 0x0C"
definition CR :: char where "CR = CHR 0x0D"
definition quote :: char where "quote = CHR 0x22"
definition backslash :: char where "backslash = CHR 0x5C"

subsection \<open>Whitespace skipping: \<^verbatim>\<open>find_first_not_of\<close>\<close>

text \<open>
  The source calls \<^verbatim>\<open>json.find_first_not_of(" \n\r\t\v\f\0")\<close>. The argument is a
  string literal, an array of the seven written characters followed by the terminating
  NUL of every literal. The overload taking \<^verbatim>\<open>const char*\<close> is the one selected, and
  it measures its argument with \<^verbatim>\<open>traits_type::length\<close>, that is up to the first NUL.
  \<open>c_str\<close> is that conversion.
\<close>

definition ws_literal :: string where
  "ws_literal = [CHR '' '', LF, CR, TAB, VT, FF, NUL] @ [NUL]"

definition c_str :: "string \<Rightarrow> string" where
  "c_str lit = takeWhile (\<lambda>c. c \<noteq> NUL) lit"

text \<open>
  \<^verbatim>\<open>find_first_not_of\<close>: the offset of the first character that is not in the set,
  \<open>None\<close> for \<^verbatim>\<open>npos\<close>.
\<close>

fun find_first_not_of :: "string \<Rightarrow> string \<Rightarrow> nat option" where
  "find_first_not_of [] chars = None"
| "find_first_not_of (c # cs) chars =
     (if c \<in> set chars then map_option Suc (find_first_not_of cs chars) else Some 0)"

subsection \<open>The numeral regular expression\<close>

text \<open>
  \<^verbatim>\<open>std::regex\<close> with the default ECMAScript grammar is a backtracking matcher: a
  quantifier is greedy, and gives characters back only when what follows it fails.
  The fragment used by the source is modelled: bracket expressions, sequence, the
  quantifiers \<^verbatim>\<open>?\<close>, \<^verbatim>\<open>*\<close> and \<^verbatim>\<open>+\<close> (the last two on a bracket expression).
  The matcher is written with a continuation for what follows.
\<close>

datatype atom = Lit char | Range char char

fun in_atom :: "char \<Rightarrow> atom \<Rightarrow> bool" where
  "in_atom c (Lit d) = (c = d)"
| "in_atom c (Range lo hi) = ((of_char lo :: nat) \<le> of_char c \<and> (of_char c :: nat) \<le> of_char hi)"

definition in_class :: "char \<Rightarrow> atom list \<Rightarrow> bool" where
  "in_class c as = (\<exists>a \<in> set as. in_atom c a)"

datatype regex =
    RClass "atom list"
  | RSeq regex regex
  | ROpt regex
  | RStar "atom list"
  | RPlus "atom list"

fun star_match :: "atom list \<Rightarrow> string \<Rightarrow> (string \<Rightarrow> 'a option) \<Rightarrow> 'a option" where
  "star_match as [] k = k []"
| "star_match as (c # cs) k =
     (if in_class c as then
        (case star_match as cs k of Some r \<Rightarrow> Some r | None \<Rightarrow> k (c # cs))
      else k (c # cs))"

fun re_match :: "regex \<Rightarrow> string \<Rightarrow> (string \<Rightarrow> 'a option) \<Rightarrow> 'a option" where
  "re_match (RClass as) s k =
     (case s of [] \<Rightarrow> None | c # cs \<Rightarrow> if in_class c as then k cs else None)"
| "re_match (RSeq a b) s k = re_match a s (\<lambda>s'. re_match b s' k)"
| "re_match (ROpt a) s k =
     (case re_match a s k of Some r \<Rightarrow> Some r | None \<Rightarrow> k s)"
| "re_match (RStar as) s k = star_match as s k"
| "re_match (RPlus as) s k =
     (case s of [] \<Rightarrow> None | c # cs \<Rightarrow> if in_class c as then star_match as cs k else None)"

text \<open>The length of the match that starts at the head of \<open>s\<close>, if there is one.\<close>

definition match_here :: "regex \<Rightarrow> string \<Rightarrow> nat option" where
  "match_here r s = re_match r s (\<lambda>rest. Some (length s - length rest))"

text \<open>
  \<^verbatim>\<open>std::regex_search\<close> is not anchored: it tries every start position from the left
  and returns the first match; \<^verbatim>\<open>match.str()\<close> is the matched text.
\<close>

fun regex_search :: "regex \<Rightarrow> string \<Rightarrow> string option" where
  "regex_search r [] = map_option (\<lambda>n. take n []) (match_here r [])"
| "regex_search r (c # cs) =
     (case match_here r (c # cs) of
        Some n \<Rightarrow> Some (take n (c # cs))
      | None \<Rightarrow> regex_search r cs)"

text \<open>\<^verbatim>\<open>[+-]?[0-9]+(\.[0-9]*)?([eE][+-]?[0-9]+)?\<close>\<close>

definition num_re :: regex where
  "num_re =
     RSeq (ROpt (RClass [Lit (CHR ''+''), Lit (CHR ''-'')]))
    (RSeq (RPlus [Range (CHR ''0'') (CHR ''9'')])
    (RSeq (ROpt (RSeq (RClass [Lit (CHR ''.'')]) (RStar [Range (CHR ''0'') (CHR ''9'')])))
         (ROpt (RSeq (RClass [Lit (CHR ''e''), Lit (CHR ''E'')])
              (RSeq (ROpt (RClass [Lit (CHR ''+''), Lit (CHR ''-'')]))
                   (RPlus [Range (CHR ''0'') (CHR ''9'')]))))))"

subsection \<open>\<^verbatim>\<open>TryParseNum\<close>\<close>

text \<open>
  \<^verbatim>\<open>std::from_chars\<close> for \<^verbatim>\<open>int\<close>, base 10: an optional minus sign (a plus sign is
  not recognised) and a nonempty run of digits. It reports where it stopped and whether
  the value fits the type.
\<close>

datatype errc = errc_ok | invalid_argument | result_out_of_range

definition is_digit :: "char \<Rightarrow> bool" where
  "is_digit c = ((of_char (CHR ''0'') :: nat) \<le> of_char c \<and> (of_char c :: nat) \<le> of_char (CHR ''9''))"

definition digit_val :: "char \<Rightarrow> int" where
  "digit_val c = int (of_char c) - int (of_char (CHR ''0''))"

definition decimal :: "string \<Rightarrow> int" where
  "decimal ds = foldl (\<lambda>a c. 10 * a + digit_val c) 0 ds"

definition from_chars_int :: "string \<Rightarrow> int \<times> nat \<times> errc" where
  "from_chars_int str =
     (let neg = (str \<noteq> [] \<and> hd str = CHR ''-'');
          body = (if neg then tl str else str);
          ds = takeWhile is_digit body;
          ptr = (if neg then 1 else 0) + length ds;
          v = (if neg then - decimal ds else decimal ds)
      in if ds = [] then (0, 0, invalid_argument)
         else if v < - (2 ^ 31) \<or> 2 ^ 31 - 1 < v then (0, ptr, result_out_of_range)
         else (v, ptr, errc_ok))"

definition TryParseNum_int :: "string \<Rightarrow> 32 word option" where
  "TryParseNum_int str =
     (case from_chars_int str of
        (v, ptr, ec) \<Rightarrow> if ec = errc_ok \<and> ptr = length str then Some (word_of_int v) else None)"

text \<open>
  \<^verbatim>\<open>TryParseNum<double>\<close> rests on \<^verbatim>\<open>std::from_chars\<close> for \<^verbatim>\<open>double\<close>, which is
  library code outside the repository. It is the parameter \<open>fcd\<close> below: a function
  from the matched text to the converted value, \<open>None\<close> when the conversion reports an
  error or stops before the end of the text.
\<close>

subsection \<open>\<^verbatim>\<open>UnescapedChar\<close>\<close>

definition UnescapedChar :: "char \<Rightarrow> char" where
  "UnescapedChar c =
     (if c = CHR ''n'' then LF
      else if c = CHR ''r'' then CR
      else if c = CHR ''0'' then NUL
      else if c = CHR ''t'' then TAB
      else if c = CHR ''v'' then VT
      else if c = CHR ''f'' then FF
      else if c = CHR ''b'' then BS
      else if c = CHR ''a'' then BEL
      else c)"

subsection \<open>\<^verbatim>\<open>Parse\<close>\<close>

text \<open>
  \<^verbatim>\<open>std::string_view::operator[]\<close> has the precondition \<open>pos < size()\<close>. Where the
  source guards the access (by \<^verbatim>\<open>json.empty()\<close> or by the loop condition
  \<^verbatim>\<open>i < json.size()\<close>) the model reads with \<open>!\<close>. The three look-ahead reads
  \<^verbatim>\<open>json[i] == ','\<close> and \<^verbatim>\<open>json[i] == ':'\<close> that follow \<^verbatim>\<open>i += eaten\<close> are not
  guarded; they go through \<open>at\<close>, which makes a read outside the slice an error value.
\<close>

datatype error = OutOfBounds

definition at :: "string \<Rightarrow> nat \<Rightarrow> error + char" where
  "at json i = (if i < length json then Inr (json ! i) else Inl OutOfBounds)"

datatype phase = Raw | Escaped

text \<open>The scanning loop of the string branch, lines 115 to 133; it returns \<open>(str, i)\<close>.\<close>

function string_loop :: "string \<Rightarrow> nat \<Rightarrow> phase \<Rightarrow> string \<Rightarrow> string \<times> nat" where
  "string_loop json i Phase str =
     (if i < length json then
        (let ch = json ! i in
         if Phase = Raw then
           (if ch = backslash then string_loop json (i + 1) Escaped str
            else if ch = quote then (str, i + 1)
            else string_loop json (i + 1) Raw (str @ [ch]))
         else string_loop json (i + 1) Raw (str @ [UnescapedChar ch]))
      else (str, i))"
  by pat_completeness auto
termination
  by (relation "measure (\<lambda>(json, i, Phase, str). length json - i)") auto

text \<open>The numeral branch, lines 96 to 108.\<close>

definition parse_num :: "(string \<Rightarrow> 'd option) \<Rightarrow> string \<Rightarrow> 'd JsonObject \<times> nat" where
  "parse_num fcd json =
     (case regex_search num_re json of
        Some str \<Rightarrow>
          (case TryParseNum_int str of
             Some num \<Rightarrow> (JInt num, length str)
           | None \<Rightarrow>
               (case fcd str of
                  Some num \<Rightarrow> (JDouble num, length str)
                | None \<Rightarrow> (JNull, 0)))
      | None \<Rightarrow> (JNull, 0))"

text \<open>
  \<^verbatim>\<open>off != 0 && off != json.npos\<close>
\<close>

definition skips :: "nat option \<Rightarrow> bool" where
  "skips off = (case off of None \<Rightarrow> False | Some n \<Rightarrow> n \<noteq> 0)"

text \<open>
  \<open>Parse\<close> with the two container loops. \<open>list_loop fcd json i res\<close> is the \<^verbatim>\<open>for\<close>
  loop of lines 140 to 157 at position \<open>i\<close> with the elements \<open>res\<close> collected so far,
  including the \<^verbatim>\<open>return\<close> that follows it; \<open>dict_loop\<close> is the loop of lines 163 to
  197. A \<^verbatim>\<open>break\<close> with \<^verbatim>\<open>i = 0\<close> is the result \<open>(container of res, 0)\<close>.
\<close>

function (sequential)
  Parse :: "(string \<Rightarrow> 'd option) \<Rightarrow> string \<Rightarrow> error + ('d JsonObject \<times> nat)"
  and list_loop ::
    "(string \<Rightarrow> 'd option) \<Rightarrow> string \<Rightarrow> nat \<Rightarrow> 'd JsonObject list \<Rightarrow> error + ('d JsonObject \<times> nat)"
  and dict_loop ::
    "(string \<Rightarrow> 'd option) \<Rightarrow> string \<Rightarrow> nat \<Rightarrow> (string \<times> 'd JsonObject) list
       \<Rightarrow> error + ('d JsonObject \<times> nat)"
where
  "Parse fcd json =
     (if json = [] then Inr (JNull, 0)
      else if skips (find_first_not_of json (c_str ws_literal)) then
        (case Parse fcd (drop (the (find_first_not_of json (c_str ws_literal))) json) of
           Inl e \<Rightarrow> Inl e
         | Inr (obj, eaten) \<Rightarrow>
             Inr (obj, eaten + the (find_first_not_of json (c_str ws_literal))))
      else if is_digit (json ! 0) \<or> json ! 0 = CHR ''+'' \<or> json ! 0 = CHR ''-'' then
        Inr (parse_num fcd json)
      else if json ! 0 = quote then
        (case string_loop json 1 Raw [] of (str, i) \<Rightarrow> Inr (JString str, i))
      else if json ! 0 = CHR ''['' then list_loop fcd json 1 []
      else if json ! 0 = CHR ''{'' then dict_loop fcd json 1 []
      else Inr (JNull, 0))"
| "list_loop fcd json i res =
     (if i < length json then
        (if json ! i = CHR '']'' then Inr (JList res, i + 1)
         else
           (case Parse fcd (drop i json) of
              Inl e \<Rightarrow> Inl e
            | Inr (obj, eaten) \<Rightarrow>
                if eaten = 0 then Inr (JList res, 0)
                else
                  (case at json (i + eaten) of
                     Inl e \<Rightarrow> Inl e
                   | Inr c \<Rightarrow>
                       list_loop fcd json
                         (if c = CHR '','' then i + eaten + 1 else i + eaten)
                         (res @ [obj]))))
      else Inr (JList res, i))"
| "dict_loop fcd json i res =
     (if i < length json then
        (if json ! i = CHR ''}'' then Inr (JDict res, i + 1)
         else
           (case Parse fcd (drop i json) of
              Inl e \<Rightarrow> Inl e
            | Inr (key_obj, key_eaten) \<Rightarrow>
                if key_eaten = 0 then Inr (JDict res, 0)
                else
                  (case key_obj of
                     JString key \<Rightarrow>
                       (case at json (i + key_eaten) of
                          Inl e \<Rightarrow> Inl e
                        | Inr c \<Rightarrow>
                            (case Parse fcd
                                    (drop (if c = CHR '':'' then i + key_eaten + 1
                                           else i + key_eaten) json) of
                               Inl e \<Rightarrow> Inl e
                             | Inr (val_obj, val_eaten) \<Rightarrow>
                                 if val_eaten = 0 then Inr (JDict res, 0)
                                 else
                                   (case at json
                                           ((if c = CHR '':'' then i + key_eaten + 1
                                             else i + key_eaten) + val_eaten) of
                                      Inl e \<Rightarrow> Inl e
                                    | Inr c' \<Rightarrow>
                                        dict_loop fcd json
                                          (if c' = CHR '',''
                                           then (if c = CHR '':'' then i + key_eaten + 1
                                                 else i + key_eaten) + val_eaten + 1
                                           else (if c = CHR '':'' then i + key_eaten + 1
                                                 else i + key_eaten) + val_eaten)
                                          (try_emplace key val_obj res))))
                   | _ \<Rightarrow> Inr (JDict res, 0))))
      else Inr (JDict res, i))"
  by pat_completeness auto

text \<open>
  The measure of a call: the length of the slice; then, at equal length, a loop at a
  position \<open>i > 0\<close> comes below \<open>Parse\<close>, which comes below a loop at position 0
  (the source starts both loops at 1, the functions are defined at every position);
  then the distance from the position to the end of the slice.
\<close>

definition call_measure ::
  "(string \<Rightarrow> 'd option) \<times> string
     + (string \<Rightarrow> 'd option) \<times> string \<times> nat \<times> 'd JsonObject list
     + (string \<Rightarrow> 'd option) \<times> string \<times> nat \<times> (string \<times> 'd JsonObject) list
   \<Rightarrow> nat \<times> nat \<times> nat"
where
  "call_measure x =
     (case x of
        Inl (fcd, json) \<Rightarrow> (length json, 1, 0)
      | Inr (Inl (fcd, json, i, res)) \<Rightarrow>
          (length json, if i = 0 then 2 else 0, length json - i)
      | Inr (Inr (fcd, json, i, res)) \<Rightarrow>
          (length json, if i = 0 then 2 else 0, length json - i))"

termination Parse
  by (relation "inv_image (less_than <*lex*> less_than <*lex*> less_than) call_measure")
     (auto simp: call_measure_def skips_def at_def split: option.splits if_splits)

declare Parse.simps [simp del] list_loop.simps [simp del] dict_loop.simps [simp del]
  string_loop.simps [simp del]

subsection \<open>Loop states\<close>

text \<open>
  The states \<open>(i, res)\<close> that the \<^verbatim>\<open>for\<close> loop of the list branch passes through
  at the top of an iteration: it starts at \<open>(1, [])\<close>, and an iteration that finds no
  \<^verbatim>\<open>]\<close>, parses an element with a nonzero count and reads its look-ahead character
  inside the slice leads to the next state.
\<close>

inductive list_reach ::
  "(string \<Rightarrow> 'd option) \<Rightarrow> string \<Rightarrow> nat \<Rightarrow> 'd JsonObject list \<Rightarrow> bool"
  for fcd :: "string \<Rightarrow> 'd option" and json :: string
where
  list_start: "list_reach fcd json 1 []"
| list_step:
    "list_reach fcd json i res \<Longrightarrow> i < length json \<Longrightarrow> json ! i \<noteq> CHR '']'' \<Longrightarrow>
     Parse fcd (drop i json) = Inr (obj, eaten) \<Longrightarrow> eaten \<noteq> 0 \<Longrightarrow>
     at json (i + eaten) = Inr c \<Longrightarrow>
     list_reach fcd json (if c = CHR '','' then i + eaten + 1 else i + eaten) (res @ [obj])"

text \<open>The same for the loop of the dict branch; \<open>j\<close> is the position of the value.\<close>

inductive dict_reach ::
  "(string \<Rightarrow> 'd option) \<Rightarrow> string \<Rightarrow> nat \<Rightarrow> (string \<times> 'd JsonObject) list \<Rightarrow> bool"
  for fcd :: "string \<Rightarrow> 'd option" and json :: string
where
  dict_start: "dict_reach fcd json 1 []"
| dict_step:
    "dict_reach fcd json i res \<Longrightarrow> i < length json \<Longrightarrow> json ! i \<noteq> CHR ''}'' \<Longrightarrow>
     Parse fcd (drop i json) = Inr (JString key, key_eaten) \<Longrightarrow> key_eaten \<noteq> 0 \<Longrightarrow>
     at json (i + key_eaten) = Inr c \<Longrightarrow>
     j = (if c = CHR '':'' then i + key_eaten + 1 else i + key_eaten) \<Longrightarrow>
     Parse fcd (drop j json) = Inr (val_obj, val_eaten) \<Longrightarrow> val_eaten \<noteq> 0 \<Longrightarrow>
     at json (j + val_eaten) = Inr c' \<Longrightarrow>
     dict_reach fcd json (if c' = CHR '','' then j + val_eaten + 1 else j + val_eaten)
       (try_emplace key val_obj res)"

subsection \<open>Notions of the specification\<close>

text \<open>
  The notions of this subsection are written from the words of the specification and
  name every character by its code, so that they do not depend on the definitions that
  embed the source.

  The text after an opening quote has no closing unescaped quote: no \<^verbatim>\<open>"\<close> (code
  0x22) occurs in it other than directly after an escaping backslash (code 0x5C).
\<close>

fun unclosed :: "string \<Rightarrow> bool" where
  "unclosed [] = True"
| "unclosed [c] = (c \<noteq> CHR 0x22)"
| "unclosed (c # d # cs) =
     (if c = CHR 0x5C then unclosed cs else c \<noteq> CHR 0x22 \<and> unclosed (d # cs))"

text \<open>
  The escape table of the specification: \<^verbatim>\<open>n\<close> is LF, \<^verbatim>\<open>r\<close> is CR, \<^verbatim>\<open>t\<close> is
  TAB, \<^verbatim>\<open>v\<close> is VT, \<^verbatim>\<open>f\<close> is FF, \<^verbatim>\<open>b\<close> is BS, \<^verbatim>\<open>a\<close> is BEL, \<^verbatim>\<open>0\<close> is
  NUL, and any other character stands for itself.
\<close>

definition escape_table :: "(char \<times> char) list" where
  "escape_table =
     [(CHR ''n'', CHR 0x0A), (CHR ''r'', CHR 0x0D), (CHR ''t'', CHR 0x09),
      (CHR ''v'', CHR 0x0B), (CHR ''f'', CHR 0x0C), (CHR ''b'', CHR 0x08),
      (CHR ''a'', CHR 0x07), (CHR ''0'', CHR 0x00)]"

definition decode_escape :: "char \<Rightarrow> char" where
  "decode_escape c = (case map_of escape_table c of Some d \<Rightarrow> d | None \<Rightarrow> c)"

text \<open>
  Escape decoding of a text: a backslash and the character after it stand for the
  character that the escape table gives for the latter; a backslash at the very end
  stands for nothing; every other character stands for itself.
\<close>

fun decode_escapes :: "string \<Rightarrow> string" where
  "decode_escapes [] = []"
| "decode_escapes [c] = (if c = CHR 0x5C then [] else [c])"
| "decode_escapes (c # d # cs) =
     (if c = CHR 0x5C then decode_escape d # decode_escapes cs
      else c # decode_escapes (d # cs))"

text \<open>
  The texts that conform to a pattern: the language of the regular expression.
\<close>

fun lang :: "regex \<Rightarrow> string set" where
  "lang (RClass as) = {[c] | c. in_class c as}"
| "lang (RSeq a b) = {u @ v | u v. u \<in> lang a \<and> v \<in> lang b}"
| "lang (ROpt a) = insert [] (lang a)"
| "lang (RStar as) = {s. list_all (\<lambda>c. in_class c as) s}"
| "lang (RPlus as) = {s. s \<noteq> [] \<and> list_all (\<lambda>c. in_class c as) s}"

text \<open>
  \<open>n\<close> is the length of the longest prefix of the input that conforms to the numeral
  pattern.
\<close>

definition numeral_prefix :: "string \<Rightarrow> nat \<Rightarrow> bool" where
  "numeral_prefix json n =
     (n \<le> length json \<and> take n json \<in> lang num_re \<and>
      (\<forall>m \<le> length json. take m json \<in> lang num_re \<longrightarrow> m \<le> n))"

subsection \<open>The greedy scan of a numeral\<close>

text \<open>
  What is left of a text after each part of the numeral pattern has taken as much as it
  can. These functions are used in the proofs about the matcher only.
\<close>

definition is_sign :: "char \<Rightarrow> bool" where
  "is_sign c = (c = CHR ''+'' \<or> c = CHR ''-'')"

definition is_exp :: "char \<Rightarrow> bool" where
  "is_exp c = (c = CHR ''e'' \<or> c = CHR ''E'')"

definition skip_sign :: "string \<Rightarrow> string" where
  "skip_sign s = (case s of [] \<Rightarrow> [] | c # t \<Rightarrow> if is_sign c then t else s)"

definition starts_digit :: "string \<Rightarrow> bool" where
  "starts_digit s = (case s of [] \<Rightarrow> False | d # t \<Rightarrow> is_digit d)"

definition frac_rest :: "string \<Rightarrow> string" where
  "frac_rest s =
     (case s of [] \<Rightarrow> [] | c # t \<Rightarrow> if c = CHR ''.'' then dropWhile is_digit t else s)"

definition exp_rest :: "string \<Rightarrow> string" where
  "exp_rest s =
     (case s of
        [] \<Rightarrow> []
      | c # t \<Rightarrow>
          if is_exp c \<and> starts_digit (skip_sign t) then dropWhile is_digit (skip_sign t)
          else s)"

definition num_rest :: "string \<Rightarrow> string" where
  "num_rest s = exp_rest (frac_rest (dropWhile is_digit (skip_sign s)))"

subsection \<open>A fixed conversion for closed statements\<close>

text \<open>
  The closed statements below fix the parameter to the conversion that accepts nothing.
  On their inputs the conversion to \<^verbatim>\<open>double\<close> is never reached, because every
  numeral is accepted by \<open>TryParseNum_int\<close>; the one exception is \<^verbatim>\<open>1e999\<close>, which
  \<^verbatim>\<open>std::from_chars\<close> rejects as well, its value being outside the range of
  \<^verbatim>\<open>double\<close>.
\<close>

definition no_double :: "string \<Rightarrow> unit option" where
  "no_double str = None"

section \<open>Termination\<close>

text \<open>
  \<open>Parse_list_loop_dict_loop_rel y x\<close> is the call relation of the three functions as
  they are defined above: the call \<open>x\<close> makes the recursive call \<open>y\<close>, where
  \<open>Inl (fcd, json)\<close> is a call of \<open>Parse\<close>, \<open>Inr (Inl (fcd, json, i, res))\<close> an
  iteration of the list loop and \<open>Inr (Inr (fcd, json, i, res))\<close> an iteration of the
  dict loop. \<open>Parse_list_loop_dict_loop_dom x\<close> says that every chain of recursive
  calls that starts at \<open>x\<close> is finite.
\<close>

lemma call_measure_decreases:
  "Parse_list_loop_dict_loop_rel y x \<Longrightarrow>
   (call_measure y, call_measure x) \<in> less_than <*lex*> less_than <*lex*> less_than"
  by (erule Parse_list_loop_dict_loop_rel.cases)
     (auto simp: call_measure_def skips_def at_def split: option.splits if_splits)

lemma Parse_dom_all: "Parse_list_loop_dict_loop_dom x"
proof (induction x rule: wf_induct_rule
    [OF wf_inv_image [of "less_than <*lex*> less_than <*lex*> less_than" call_measure]])
  case 1
  show ?case by auto
next
  case (2 x)
  show ?case
    by (rule accpI) (simp add: 2 call_measure_decreases)
qed

text \<open>
  C10. \<open>Parse\<close> terminates on every input: every call is in the terminating part of
  the call relation, because each recursive call strictly decreases the measure. A
  recursive call of \<open>Parse\<close> is on a strictly shorter slice (the whitespace offset is
  nonzero, a loop position is inside the slice); the next iteration of a loop is at a
  strictly larger position, since an iteration whose sub-parse consumed 0 characters
  leaves the loop.
\<close>

theorem Parse_terminates:
  "Parse_list_loop_dict_loop_dom x \<and>
   (Parse_list_loop_dict_loop_rel y x \<longrightarrow>
      (call_measure y, call_measure x) \<in> less_than <*lex*> less_than <*lex*> less_than)"
  by (simp add: Parse_dom_all call_measure_decreases)

theorem Parse_terminates_witness:
  "Parse_list_loop_dict_loop_dom (Inr (Inl (no_double, ''[1]'', 1, []))) \<and>
   Parse_list_loop_dict_loop_rel
     (Inl (no_double, drop 1 ''[1]'')) (Inr (Inl (no_double, ''[1]'', 1, []))) \<and>
   (call_measure (Inl (no_double, drop 1 ''[1]'')),
    call_measure (Inr (Inl (no_double, ''[1]'', 1, []))))
     \<in> less_than <*lex*> less_than <*lex*> less_than"
proof -
  have r: "Parse_list_loop_dict_loop_rel
     (Inl (no_double, drop 1 ''[1]'')) (Inr (Inl (no_double, ''[1]'', 1, [])))"
    by (rule Parse_list_loop_dict_loop_rel.intros(4)) simp_all
  show ?thesis
    using r Parse_terminates
      [of "Inr (Inl (no_double, ''[1]'', 1, []))" "Inl (no_double, drop 1 ''[1]'')"]
    by blast
qed

section \<open>Leading whitespace\<close>

lemma ws_set: "set (c_str ws_literal) = {CHR '' '', LF, CR, TAB, VT, FF}"
  by (auto simp: c_str_def ws_literal_def NUL_def LF_def CR_def TAB_def VT_def FF_def)

lemma ffno_append:
  "set w \<subseteq> set chars \<Longrightarrow>
   find_first_not_of (w @ s) chars = map_option (\<lambda>n. n + length w) (find_first_not_of s chars)"
  by (induction w) (auto simp: option.map_comp comp_def option.map_ident)

lemma ffno_None_hd: "find_first_not_of s chars = None \<Longrightarrow> s \<noteq> [] \<Longrightarrow> s ! 0 \<in> set chars"
  by (cases s) (auto split: if_splits)

text \<open>A text of whitespace only is not skipped: it falls through to the last \<^verbatim>\<open>return\<close>.\<close>

lemma Parse_all_ws:
  assumes "find_first_not_of s (c_str ws_literal) = None"
  shows "Parse fcd s = Inr (JNull, 0)"
proof (cases "s = []")
  case True
  then show ?thesis by (simp add: Parse.simps)
next
  case False
  from ffno_None_hd [OF assms False] have "s ! 0 \<in> {CHR '' '', LF, CR, TAB, VT, FF}"
    by (simp add: ws_set)
  then show ?thesis using False assms
    by (subst Parse.simps)
       (auto simp: skips_def is_digit_def quote_def LF_def CR_def TAB_def VT_def FF_def)
qed

text \<open>
  C5. If \<open>Parse\<close> accepts \<open>s\<close> with a nonzero count, then prefixing \<open>s\<close> with a nonempty
  text \<open>w\<close> of spaces, newlines, carriage returns and tabs gives the same value, and
  the count grows by exactly the length of \<open>w\<close>.
\<close>

theorem Parse_leading_whitespace:
  assumes "Parse fcd s = Inr (v, n)" and "0 < n" and "w \<noteq> []"
    and "set w \<subseteq> {CHR '' '', LF, CR, TAB}"
  shows "Parse fcd (w @ s) = Inr (v, n + length w)"
proof -
  obtain off where off: "find_first_not_of s (c_str ws_literal) = Some off"
    using assms(1,2) Parse_all_ws [of s fcd]
    by (cases "find_first_not_of s (c_str ws_literal)") auto
  have w: "set w \<subseteq> set (c_str ws_literal)"
    using assms(4) by (auto simp: ws_set)
  have ffw: "find_first_not_of (w @ s) (c_str ws_literal) = Some (off + length w)"
    by (simp add: ffno_append [OF w] off)
  have inner: "Parse fcd (drop off s) = Inr (v, n - off) \<and> off \<le> n"
  proof (cases "off = 0")
    case True
    then show ?thesis using assms(1) by simp
  next
    case False
    have "s \<noteq> []" using off by auto
    then show ?thesis using assms(1) False off
      by (subst (asm) Parse.simps) (auto simp: skips_def split: sum.splits)
  qed
  have "Parse fcd (w @ s) =
     (case Parse fcd (drop (off + length w) (w @ s)) of
        Inl e \<Rightarrow> Inl e
      | Inr (obj, eaten) \<Rightarrow> Inr (obj, eaten + (off + length w)))"
    using assms(3) by (subst Parse.simps) (auto simp: ffw skips_def split: sum.splits)
  also have "drop (off + length w) (w @ s) = drop off s"
    by simp
  finally show ?thesis using inner by simp
qed

theorem Parse_leading_whitespace_witness:
  "Parse no_double ''[1]'' = Inr (JList [JInt 1], 3) \<and> (0::nat) < 3 \<and>
   [CHR '' '', LF, CR, TAB] \<noteq> [] \<and>
   set [CHR '' '', LF, CR, TAB] \<subseteq> {CHR '' '', LF, CR, TAB} \<and>
   Parse no_double ([CHR '' '', LF, CR, TAB] @ ''[1]'') = Inr (JList [JInt 1], 3 + 4)"
proof -
  have p: "Parse no_double ''[1]'' = Inr (JList [JInt 1], 3)"
    by code_simp
  show ?thesis
    using p Parse_leading_whitespace
      [of no_double "''[1]''" "JList [JInt 1]" 3 "[CHR '' '', LF, CR, TAB]"]
    by simp
qed

section \<open>Strings without a closing quote\<close>

lemma drop_eq_ConsD:
  "drop i xs = c # rest \<Longrightarrow> i < length xs \<and> xs ! i = c \<and> drop (Suc i) xs = rest"
  by (metis Cons_nth_drop_Suc drop_eq_Nil linorder_not_le list.discI list.inject)

lemma string_loop_end: "length json \<le> i \<Longrightarrow> string_loop json i Phase acc = (acc, i)"
  by (subst string_loop.simps) simp

lemma string_loop_Escaped:
  "i < length json \<Longrightarrow>
   string_loop json i Escaped acc = string_loop json (Suc i) Raw (acc @ [UnescapedChar (json ! i)])"
  by (subst string_loop.simps) (simp add: Let_def)

lemma string_loop_Raw:
  "i < length json \<Longrightarrow>
   string_loop json i Raw acc =
     (if json ! i = backslash then string_loop json (Suc i) Escaped acc
      else if json ! i = quote then (acc, Suc i)
      else string_loop json (Suc i) Raw (acc @ [json ! i]))"
  by (subst string_loop.simps) (simp add: Let_def)

text \<open>The escape table of the source is the escape table of the specification.\<close>

lemma UnescapedChar_table: "UnescapedChar c = decode_escape c"
  by (simp add: UnescapedChar_def decode_escape_def escape_table_def
      LF_def CR_def NUL_def TAB_def VT_def FF_def BS_def BEL_def)

lemma string_loop_unclosed:
  "i \<le> length json \<Longrightarrow> unclosed (drop i json) \<Longrightarrow>
   string_loop json i Raw acc = (acc @ decode_escapes (drop i json), length json)"
proof (induction "drop i json" arbitrary: i acc rule: unclosed.induct)
  case 1
  then have "length json = i" by simp
  then show ?case
    using 1(1) [symmetric] by (simp add: string_loop_end)
next
  case (2 c)
  have d: "drop i json = [c]" using 2(1) by simp
  from drop_eq_ConsD [OF d]
  have i: "i < length json" "json ! i = c" "drop (Suc i) json = []" by auto
  then have l: "length json = Suc i" by simp
  have c: "c \<noteq> quote" using 2(3) d by (simp add: quote_def)
  show ?case
    using i(1,2) c l
    by (simp add: d string_loop_Raw string_loop_end backslash_def)
next
  case (3 c d cs)
  have dr: "drop i json = c # d # cs" using 3(3) by simp
  from drop_eq_ConsD [OF dr]
  have i: "i < length json" "json ! i = c" "drop (Suc i) json = d # cs" by auto
  from drop_eq_ConsD [OF i(3)]
  have j: "Suc i < length json" "json ! Suc i = d" "drop (Suc (Suc i)) json = cs" by auto
  show ?case
  proof (cases "c = CHR 0x5C")
    case True
    then have u: "unclosed (drop (Suc (Suc i)) json)" using 3(5) dr j(3) by simp
    have "string_loop json i Raw acc = string_loop json (Suc (Suc i)) Raw (acc @ [decode_escape d])"
      using i(1,2) j(1,2) True
      by (simp add: string_loop_Raw string_loop_Escaped backslash_def UnescapedChar_table)
    also have "\<dots> = ((acc @ [decode_escape d]) @ decode_escapes (drop (Suc (Suc i)) json), length json)"
      using j(1) by (intro 3(1) [OF True] u) (simp_all add: j(3))
    finally show ?thesis using True by (simp add: dr j(3))
  next
    case False
    then have u: "c \<noteq> quote" "unclosed (drop (Suc i) json)"
      using 3(5) dr i(3) by (simp_all add: quote_def)
    have "string_loop json i Raw acc = string_loop json (Suc i) Raw (acc @ [c])"
      using i(1,2) False u(1) by (simp add: string_loop_Raw backslash_def)
    also have "\<dots> = ((acc @ [c]) @ decode_escapes (drop (Suc i) json), length json)"
      using i(1) by (intro 3(2) [OF False] u) (simp_all add: i(3))
    finally show ?thesis using False by (simp add: dr i(3))
  qed
qed

lemma quote_dispatch:
  "quote \<notin> set (c_str ws_literal)" "\<not> is_digit quote" "quote \<noteq> CHR ''+''" "quote \<noteq> CHR ''-''"
  by (simp_all add: ws_set is_digit_def quote_def LF_def CR_def TAB_def VT_def FF_def)

text \<open>
  C6. An input that starts with a quote and has no closing unescaped quote after it is
  not rejected: \<open>Parse\<close> returns the string of everything scanned, decoded with the
  escape table of the specification, and the count is the length of the whole input.
\<close>

theorem Parse_unterminated_string:
  assumes "unclosed rest"
  shows "Parse fcd (CHR 0x22 # rest) =
    Inr (JString (decode_escapes rest), length (CHR 0x22 # rest))"
proof -
  have "string_loop (quote # rest) 1 Raw [] =
      ([] @ decode_escapes (drop 1 (quote # rest)), length (quote # rest))"
    by (rule string_loop_unclosed) (simp_all add: assms)
  then have "Parse fcd (quote # rest) =
      Inr (JString (decode_escapes rest), length (quote # rest))"
    by (subst Parse.simps) (simp add: quote_dispatch skips_def)
  then show ?thesis
    by (simp add: quote_def)
qed

text \<open>
  The witness has every escape of the table, an escaped quote, an escaped backslash,
  an escaped character outside the table and a backslash at the very end.
\<close>

theorem Parse_unterminated_string_witness:
  "unclosed
     [CHR ''x'', CHR 0x5C, CHR ''n'', CHR 0x5C, CHR ''r'', CHR 0x5C, CHR ''t'',
      CHR 0x5C, CHR ''v'', CHR 0x5C, CHR ''f'', CHR 0x5C, CHR ''b'', CHR 0x5C, CHR ''a'',
      CHR 0x5C, CHR ''0'', CHR 0x5C, CHR 0x22, CHR 0x5C, CHR 0x5C, CHR 0x5C, CHR ''q'',
      CHR ''y'', CHR 0x5C] \<and>
   Parse no_double
     (CHR 0x22 #
      [CHR ''x'', CHR 0x5C, CHR ''n'', CHR 0x5C, CHR ''r'', CHR 0x5C, CHR ''t'',
       CHR 0x5C, CHR ''v'', CHR 0x5C, CHR ''f'', CHR 0x5C, CHR ''b'', CHR 0x5C, CHR ''a'',
       CHR 0x5C, CHR ''0'', CHR 0x5C, CHR 0x22, CHR 0x5C, CHR 0x5C, CHR 0x5C, CHR ''q'',
       CHR ''y'', CHR 0x5C])
     = Inr (JString
             [CHR ''x'', CHR 0x0A, CHR 0x0D, CHR 0x09, CHR 0x0B, CHR 0x0C, CHR 0x08,
              CHR 0x07, CHR 0x00, CHR 0x22, CHR 0x5C, CHR ''q'', CHR ''y''],
            26)"
  using Parse_unterminated_string
    [of "[CHR ''x'', CHR 0x5C, CHR ''n'', CHR 0x5C, CHR ''r'', CHR 0x5C, CHR ''t'',
      CHR 0x5C, CHR ''v'', CHR 0x5C, CHR ''f'', CHR 0x5C, CHR ''b'', CHR 0x5C, CHR ''a'',
      CHR 0x5C, CHR ''0'', CHR 0x5C, CHR 0x22, CHR 0x5C, CHR 0x5C, CHR 0x5C, CHR ''q'',
      CHR ''y'', CHR 0x5C]" no_double]
  by (simp add: decode_escape_def escape_table_def)

section \<open>The container loops\<close>

lemma bracket_dispatch:
  "CHR ''['' \<notin> set (c_str ws_literal)" "\<not> is_digit (CHR ''['')" "CHR ''['' \<noteq> quote"
  "CHR ''{'' \<notin> set (c_str ws_literal)" "\<not> is_digit (CHR ''{'')" "CHR ''{'' \<noteq> quote"
  by (simp_all add: ws_set is_digit_def quote_def LF_def CR_def TAB_def VT_def FF_def)

lemma Parse_list_entry:
  assumes "json \<noteq> []" and "json ! 0 = CHR ''[''"
  shows "Parse fcd json = list_loop fcd json 1 []"
proof -
  obtain rest where j: "json = CHR ''['' # rest"
    using assms by (cases json) auto
  show ?thesis
    unfolding j by (subst Parse.simps) (simp add: bracket_dispatch skips_def)
qed

lemma Parse_dict_entry:
  assumes "json \<noteq> []" and "json ! 0 = CHR ''{''"
  shows "Parse fcd json = dict_loop fcd json 1 []"
proof -
  obtain rest where j: "json = CHR ''{'' # rest"
    using assms by (cases json) auto
  show ?thesis
    unfolding j by (subst Parse.simps) (simp add: bracket_dispatch skips_def)
qed

lemma list_reach_loop:
  "list_reach fcd json i res \<Longrightarrow> list_loop fcd json 1 [] = list_loop fcd json i res"
proof (induction rule: list_reach.induct)
  case list_start
  show ?case by simp
next
  case (list_step i res obj eaten c)
  have "list_loop fcd json i res =
      list_loop fcd json (if c = CHR '','' then i + eaten + 1 else i + eaten) (res @ [obj])"
    using list_step.hyps(2-6) by (subst list_loop.simps) simp
  then show ?case using list_step.IH by simp
qed

lemma dict_reach_loop:
  "dict_reach fcd json i res \<Longrightarrow> dict_loop fcd json 1 [] = dict_loop fcd json i res"
proof (induction rule: dict_reach.induct)
  case dict_start
  show ?case by simp
next
  case (dict_step i res key key_eaten c j val_obj val_eaten c')
  have "dict_loop fcd json i res =
      dict_loop fcd json (if c' = CHR '','' then j + val_eaten + 1 else j + val_eaten)
        (try_emplace key val_obj res)"
    using dict_step.hyps(2-10) by (subst dict_loop.simps) simp
  then show ?case using dict_step.IH by simp
qed

lemma list_reach_le: "list_reach fcd json i res \<Longrightarrow> json \<noteq> [] \<Longrightarrow> i \<le> length json"
  by (induction rule: list_reach.induct)
     (auto simp: at_def Suc_le_eq split: if_splits)

lemma dict_reach_le: "dict_reach fcd json i res \<Longrightarrow> json \<noteq> [] \<Longrightarrow> i \<le> length json"
  by (induction rule: dict_reach.induct)
     (auto simp: at_def Suc_le_eq split: if_splits)

lemma list_element_failure:
  assumes "json \<noteq> []" "json ! 0 = CHR ''[''" "list_reach fcd json i res"
    "i < length json" "json ! i \<noteq> CHR '']''" "Parse fcd (drop i json) = Inr (v, 0)"
  shows "Parse fcd json = Inr (JList res, 0)"
proof -
  have "Parse fcd json = list_loop fcd json 1 []"
    by (rule Parse_list_entry [OF assms(1,2)])
  also have "\<dots> = list_loop fcd json i res"
    by (rule list_reach_loop [OF assms(3)])
  also have "\<dots> = Inr (JList res, 0)"
    using assms(4-6) by (subst list_loop.simps) simp
  finally show ?thesis .
qed

lemma dict_key_failure:
  assumes "json \<noteq> []" "json ! 0 = CHR ''{''" "dict_reach fcd json i res"
    "i < length json" "json ! i \<noteq> CHR ''}''" "Parse fcd (drop i json) = Inr (v, 0)"
  shows "Parse fcd json = Inr (JDict res, 0)"
proof -
  have "Parse fcd json = dict_loop fcd json 1 []"
    by (rule Parse_dict_entry [OF assms(1,2)])
  also have "\<dots> = dict_loop fcd json i res"
    by (rule dict_reach_loop [OF assms(3)])
  also have "\<dots> = Inr (JDict res, 0)"
    using assms(4-6) by (subst dict_loop.simps) simp
  finally show ?thesis .
qed

lemma dict_value_failure:
  assumes "json \<noteq> []" "json ! 0 = CHR ''{''" "dict_reach fcd json i res"
    "i < length json" "json ! i \<noteq> CHR ''}''"
    "Parse fcd (drop i json) = Inr (JString key, key_eaten)" "key_eaten \<noteq> 0"
    "at json (i + key_eaten) = Inr c"
    "Parse fcd (drop (if c = CHR '':'' then i + key_eaten + 1 else i + key_eaten) json) = Inr (v, 0)"
  shows "Parse fcd json = Inr (JDict res, 0)"
proof -
  have "Parse fcd json = dict_loop fcd json 1 []"
    by (rule Parse_dict_entry [OF assms(1,2)])
  also have "\<dots> = dict_loop fcd json i res"
    by (rule dict_reach_loop [OF assms(3)])
  also have "\<dots> = Inr (JDict res, 0)"
    using assms(4-9) by (subst dict_loop.simps) simp
  finally show ?thesis .
qed

lemma list_end_of_input:
  assumes "json \<noteq> []" "json ! 0 = CHR ''[''" "list_reach fcd json i res" "length json \<le> i"
  shows "Parse fcd json = Inr (JList res, length json)"
proof -
  have i: "i = length json"
    using list_reach_le [OF assms(3,1)] assms(4) by simp
  have "Parse fcd json = list_loop fcd json 1 []"
    by (rule Parse_list_entry [OF assms(1,2)])
  also have "\<dots> = list_loop fcd json i res"
    by (rule list_reach_loop [OF assms(3)])
  also have "\<dots> = Inr (JList res, i)"
    using assms(4) by (subst list_loop.simps) simp
  finally show ?thesis by (simp add: i)
qed

lemma dict_end_of_input:
  assumes "json \<noteq> []" "json ! 0 = CHR ''{''" "dict_reach fcd json i res" "length json \<le> i"
  shows "Parse fcd json = Inr (JDict res, length json)"
proof -
  have i: "i = length json"
    using dict_reach_le [OF assms(3,1)] assms(4) by simp
  have "Parse fcd json = dict_loop fcd json 1 []"
    by (rule Parse_dict_entry [OF assms(1,2)])
  also have "\<dots> = dict_loop fcd json i res"
    by (rule dict_reach_loop [OF assms(3)])
  also have "\<dots> = Inr (JDict res, i)"
    using assms(4) by (subst dict_loop.simps) simp
  finally show ?thesis by (simp add: i)
qed

text \<open>
  C1, as amended. When an element sub-parse inside a list, or a key or value sub-parse
  inside a dict, returns the count 0, the enclosing \<open>Parse\<close> call returns the count 0
  as well, and the value that accompanies it is the list or dict of what was collected
  before the failing sub-parse (it is not \<open>JNull\<close>).
\<close>

theorem Parse_sub_failure:
  "(json \<noteq> [] \<and> json ! 0 = CHR ''['' \<and> list_reach fcd json i res \<and>
    i < length json \<and> json ! i \<noteq> CHR '']'' \<and> Parse fcd (drop i json) = Inr (v, 0)
      \<longrightarrow> Parse fcd json = Inr (JList res, 0)) \<and>
   (json \<noteq> [] \<and> json ! 0 = CHR ''{'' \<and> dict_reach fcd json i dres \<and>
    i < length json \<and> json ! i \<noteq> CHR ''}'' \<and> Parse fcd (drop i json) = Inr (v, 0)
      \<longrightarrow> Parse fcd json = Inr (JDict dres, 0)) \<and>
   (json \<noteq> [] \<and> json ! 0 = CHR ''{'' \<and> dict_reach fcd json i dres \<and>
    i < length json \<and> json ! i \<noteq> CHR ''}'' \<and>
    Parse fcd (drop i json) = Inr (JString key, key_eaten) \<and> key_eaten \<noteq> 0 \<and>
    at json (i + key_eaten) = Inr c \<and>
    Parse fcd (drop (if c = CHR '':'' then i + key_eaten + 1 else i + key_eaten) json)
      = Inr (v, 0)
      \<longrightarrow> Parse fcd json = Inr (JDict dres, 0))"
proof (intro conjI impI, goal_cases)
  case 1
  then show ?case by (elim conjE) (rule list_element_failure)
next
  case 2
  then show ?case by (elim conjE) (rule dict_key_failure)
next
  case 3
  then show ?case by (elim conjE) (rule dict_value_failure)
qed

theorem Parse_sub_failure_witness:
  \<open>list_reach no_double ''[1,x]'' 3 [JInt 1] \<and>
   Parse no_double (drop 3 ''[1,x]'') = Inr (JNull, 0) \<and>
   Parse no_double ''[1,x]'' = Inr (JList [JInt 1], 0) \<and>
   dict_reach no_double ''{x}'' 1 [] \<and>
   Parse no_double (drop 1 ''{x}'') = Inr (JNull, 0) \<and>
   Parse no_double ''{x}'' = Inr (JDict [], 0) \<and>
   dict_reach no_double ''{"a":x}'' 1 [] \<and>
   Parse no_double (drop 1 ''{"a":x}'') = Inr (JString ''a'', 3) \<and>
   at ''{"a":x}'' (1 + 3) = Inr (CHR '':'') \<and>
   Parse no_double (drop 5 ''{"a":x}'') = Inr (JNull, 0) \<and>
   Parse no_double ''{"a":x}'' = Inr (JDict [], 0)\<close>
proof -
  have e1: "Parse no_double (drop 1 ''[1,x]'') = Inr (JInt 1, 1)"
    by code_simp
  have "list_reach no_double ''[1,x]''
      (if CHR '','' = CHR '','' then 1 + 1 + 1 else 1 + 1) ([] @ [JInt 1])"
    by (rule list_step [OF list_start _ _ e1]) (simp_all add: at_def)
  then have r1: "list_reach no_double ''[1,x]'' 3 [JInt 1]"
    by (simp add: numeral_3_eq_3)
  have f1: "Parse no_double (drop 3 ''[1,x]'') = Inr (JNull, 0)"
    by code_simp
  have c1: "Parse no_double ''[1,x]'' = Inr (JList [JInt 1], 0)"
    using r1 f1
      Parse_sub_failure [where json = "''[1,x]''" and fcd = no_double and i = 3
        and res = "[JInt 1]" and v = JNull]
    by simp
  have r2: "dict_reach no_double ''{x}'' 1 []"
    by (rule dict_start)
  have f2: "Parse no_double (drop 1 ''{x}'') = Inr (JNull, 0)"
    by code_simp
  have c2: "Parse no_double ''{x}'' = Inr (JDict [], 0)"
    using r2 f2
      Parse_sub_failure [where json = "''{x}''" and fcd = no_double and i = 1
        and dres = "[]" and v = JNull]
    by simp
  have r3: \<open>dict_reach no_double ''{"a":x}'' 1 []\<close>
    by (rule dict_start)
  have k3: \<open>Parse no_double (drop 1 ''{"a":x}'') = Inr (JString ''a'', 3)\<close>
    by code_simp
  have a3: \<open>at ''{"a":x}'' (1 + 3) = Inr (CHR '':'')\<close>
    by (simp add: at_def)
  have f3: \<open>Parse no_double (drop 5 ''{"a":x}'') = Inr (JNull, 0)\<close>
    by code_simp
  have c3: \<open>Parse no_double ''{"a":x}'' = Inr (JDict [], 0)\<close>
    using r3 k3 a3 f3
      Parse_sub_failure [where json = \<open>''{"a":x}''\<close> and fcd = no_double and i = 1
        and dres = "[]" and v = JNull and key = "''a''" and key_eaten = 3
        and c = "CHR '':''"]
    by simp
  show ?thesis
    using r1 f1 c1 r2 f2 c2 r3 k3 a3 f3 c3 by blast
qed

text \<open>
  The claim C1 as it is stated fails: in \<^verbatim>\<open>[1,x]\<close> the sub-parse of the second
  element returns the count 0, and the enclosing call returns the list of the first
  element, not null, with the count 0.
\<close>

theorem Parse_sub_failure_counterexample:
  "Parse no_double (drop 3 ''[1,x]'') = Inr (JNull, 0) \<and>
   Parse no_double ''[1,x]'' = Inr (JList [JInt 1], 0) \<and>
   JList [JInt 1] \<noteq> (JNull :: unit JsonObject)"
  by code_simp

text \<open>
  C2, as amended. A missing closing bracket is not a failure of its own: when the loop
  of the list or dict branch arrives at the end of the input at the top of an iteration
  (directly after the opening bracket, or after a separating comma), \<open>Parse\<close> returns
  what was collected, and the count is the length of the input, which is not 0.
\<close>

theorem Parse_unclosed_bracket:
  "(json \<noteq> [] \<and> json ! 0 = CHR ''['' \<and> list_reach fcd json i res \<and> length json \<le> i
      \<longrightarrow> Parse fcd json = Inr (JList res, length json) \<and> 0 < length json) \<and>
   (json \<noteq> [] \<and> json ! 0 = CHR ''{'' \<and> dict_reach fcd json i dres \<and> length json \<le> i
      \<longrightarrow> Parse fcd json = Inr (JDict dres, length json) \<and> 0 < length json)"
proof (intro conjI impI, goal_cases)
  case 1
  then show ?case by (elim conjE) (rule list_end_of_input)
next
  case 2
  then show ?case by simp
next
  case 3
  then show ?case by (elim conjE) (rule dict_end_of_input)
next
  case 4
  then show ?case by simp
qed

theorem Parse_unclosed_bracket_witness:
  "list_reach no_double ''[1,'' 3 [JInt 1] \<and>
   Parse no_double ''[1,'' = Inr (JList [JInt 1], 3) \<and>
   dict_reach no_double ''{'' 1 [] \<and>
   Parse no_double ''{'' = Inr (JDict [], 1)"
proof -
  have e1: "Parse no_double (drop 1 ''[1,'') = Inr (JInt 1, 1)"
    by code_simp
  have "list_reach no_double ''[1,''
      (if CHR '','' = CHR '','' then 1 + 1 + 1 else 1 + 1) ([] @ [JInt 1])"
    by (rule list_step [OF list_start _ _ e1]) (simp_all add: at_def)
  then have r1: "list_reach no_double ''[1,'' 3 [JInt 1]"
    by (simp add: numeral_3_eq_3)
  have c1: "Parse no_double ''[1,'' = Inr (JList [JInt 1], 3)"
    using r1
      Parse_unclosed_bracket [where json = "''[1,''" and fcd = no_double and i = 3
        and res = "[JInt 1]"]
    by simp
  have r2: "dict_reach no_double ''{'' 1 []"
    by (rule dict_start)
  have c2: "Parse no_double ''{'' = Inr (JDict [], 1)"
    using r2
      Parse_unclosed_bracket [where json = "''{''" and fcd = no_double and i = 1
        and dres = "[]"]
    by simp
  show ?thesis
    using r1 c1 r2 c2 by blast
qed

text \<open>
  The claim C2 as it is stated fails: an opening bracket alone is accepted with the
  count 1.
\<close>

theorem Parse_unclosed_bracket_counterexample:
  "Parse no_double ''['' = Inr (JList [], 1) \<and> Parse no_double ''{'' = Inr (JDict [], 1)"
  by code_simp

section \<open>Duplicate keys\<close>

lemma try_emplace_keeps:
  "map_of res key = Some v \<Longrightarrow> map_of (try_emplace key' v' res) key = Some v"
  by (simp add: try_emplace_def map_add_Some_iff)

lemma try_emplace_existing: "map_of res key = Some v \<Longrightarrow> try_emplace key v' res = res"
  by (simp add: try_emplace_def)

lemma dict_loop_step:
  "dict_loop fcd json i res = Inr (JDict d, n) \<Longrightarrow>
   d = res \<or>
   (\<exists>i' key' val. i < length json \<and> i < i' \<and>
      dict_loop fcd json i' (try_emplace key' val res) = Inr (JDict d, n))"
  apply (subst (asm) dict_loop.simps)
  apply (simp split: if_splits sum.splits prod.splits JsonObject.splits)
     apply (rule disjI2, rule exI, rule conjI [rotated], rule exI, rule exI, assumption, simp)+
  done

lemma dict_loop_keeps:
  "dict_loop fcd json i res = Inr (JDict d, n) \<Longrightarrow> map_of res key = Some v \<Longrightarrow>
   map_of d key = Some v"
proof (induction "length json - i" arbitrary: i res rule: less_induct)
  case less
  from dict_loop_step [OF less.prems(1)] show ?case
  proof (elim disjE exE conjE)
    assume "d = res"
    then show ?thesis using less.prems(2) by simp
  next
    fix i' key' val
    assume step: "i < length json" "i < i'"
      "dict_loop fcd json i' (try_emplace key' val res) = Inr (JDict d, n)"
    have "length json - i' < length json - i"
      using step(1,2) by simp
    then show ?thesis
      using step(3) by (rule less.hyps) (simp add: try_emplace_keeps less.prems(2))
  qed
qed

lemma dict_reach_keeps:
  assumes "json \<noteq> []" "json ! 0 = CHR ''{''" "dict_reach fcd json i res"
    "map_of res key = Some v" "Parse fcd json = Inr (JDict d, n)"
  shows "map_of d key = Some v"
proof -
  have "Parse fcd json = dict_loop fcd json 1 []"
    by (rule Parse_dict_entry [OF assms(1,2)])
  also have "\<dots> = dict_loop fcd json i res"
    by (rule dict_reach_loop [OF assms(3)])
  finally have "dict_loop fcd json i res = Inr (JDict d, n)"
    using assms(5) by simp
  then show ?thesis
    using assms(4) by (rule dict_loop_keeps)
qed

text \<open>
  C7. The dict with the key \<^verbatim>\<open>a\<close> twice parses (13 characters) to a dict in which
  \<^verbatim>\<open>a\<close> has the first value, 1. In general \<open>try_emplace\<close> on a key that is present
  changes nothing, and an entry of the dict being built at any iteration of the loop is
  an entry of the dict that \<open>Parse\<close> returns.
\<close>

theorem Parse_duplicate_key:
  \<open>Parse no_double ''{"a":1,"a":2}'' = Inr (JDict [(''a'', JInt 1)], 13) \<and>
   map_of [(''a'', JInt 1 :: unit JsonObject)] ''a'' = Some (JInt 1) \<and>
   (map_of res key = Some v \<longrightarrow> try_emplace key v' res = res) \<and>
   (json \<noteq> [] \<and> json ! 0 = CHR ''{'' \<and> dict_reach fcd json i res \<and>
    map_of res key = Some v \<and> Parse fcd json = Inr (JDict d, n)
      \<longrightarrow> map_of d key = Some v)\<close>
proof -
  have \<open>Parse no_double ''{"a":1,"a":2}'' = Inr (JDict [(''a'', JInt 1)], 13)\<close>
    by code_simp
  moreover have \<open>map_of [(''a'', JInt 1 :: unit JsonObject)] ''a'' = Some (JInt 1)\<close>
    by simp
  moreover have "map_of res key = Some v \<longrightarrow> try_emplace key v' res = res"
    by (simp add: try_emplace_existing)
  moreover have "json \<noteq> [] \<and> json ! 0 = CHR ''{'' \<and> dict_reach fcd json i res \<and>
      map_of res key = Some v \<and> Parse fcd json = Inr (JDict d, n)
        \<longrightarrow> map_of d key = Some v"
    by (intro impI, elim conjE) (rule dict_reach_keeps)
  ultimately show ?thesis
    by (intro conjI)
qed

theorem Parse_duplicate_key_witness:
  \<open>dict_reach no_double ''{"a":1,"a":2}'' 7 [(''a'', JInt 1)] \<and>
   map_of [(''a'', JInt 1 :: unit JsonObject)] ''a'' = Some (JInt 1) \<and>
   try_emplace ''a'' (JInt 2) [(''a'', JInt 1 :: unit JsonObject)] = [(''a'', JInt 1)] \<and>
   Parse no_double ''{"a":1,"a":2}'' = Inr (JDict [(''a'', JInt 1)], 13)\<close>
proof -
  have k: \<open>Parse no_double (drop 1 ''{"a":1,"a":2}'') = Inr (JString ''a'', 3)\<close>
    by code_simp
  have v: \<open>Parse no_double (drop 5 ''{"a":1,"a":2}'') = Inr (JInt 1, 1)\<close>
    by code_simp
  have \<open>dict_reach no_double ''{"a":1,"a":2}''
      (if CHR '','' = CHR '','' then 5 + 1 + 1 else 5 + 1) (try_emplace ''a'' (JInt 1) [])\<close>
    by (rule dict_step [OF dict_start _ _ k _ _ _ v, where c = "CHR '':''"])
       (simp_all add: at_def)
  then have r: \<open>dict_reach no_double ''{"a":1,"a":2}'' 7 [(''a'', JInt 1)]\<close>
    by (simp add: try_emplace_def)
  show ?thesis
    using r
      Parse_duplicate_key [where res = "[(''a'', JInt 1)]" and key = "''a''"
        and v = "JInt 1" and v' = "JInt 2" and json = \<open>''{"a":1,"a":2}''\<close>
        and fcd = no_double and i = 7 and d = "[(''a'', JInt 1)]" and n = 13]
    by simp
qed

section \<open>Runs that do not reach the conversion to double\<close>

text \<open>
  The inputs of the closed statements, run for an arbitrary conversion \<open>fcd\<close>: every
  numeral in them is accepted as \<^verbatim>\<open>int\<close>, and the results do not depend on \<open>fcd\<close>.
\<close>

lemmas run_defs =
  Parse.simps list_loop.simps dict_loop.simps string_loop.simps
  skips_def c_str_def ws_literal_def NUL_def LF_def CR_def TAB_def VT_def FF_def
  is_digit_def quote_def backslash_def parse_num_def num_re_def match_here_def in_class_def
  TryParseNum_int_def from_chars_int_def decimal_def digit_val_def at_def try_emplace_def
  Let_def

lemma runs_for_any_conversion:
  \<open>Parse fcd ''[1,x]'' = Inr (JList [JInt 1], 0)\<close>
  \<open>Parse fcd '' [x]'' = Inr (JList [], 1)\<close>
  \<open>Parse fcd ''['' = Inr (JList [], 1)\<close>
  \<open>Parse fcd ''{'' = Inr (JDict [], 1)\<close>
  \<open>Parse fcd ''-x1'' = Inr (JInt 1, 1)\<close>
  \<open>Parse fcd ''-12,x'' = Inr (JInt (- 12), 3)\<close>
  \<open>Parse fcd ''1'' = Inr (JInt 1, 1)\<close>
  \<open>Parse fcd (NUL # ''1'') = Inr (JNull, 0)\<close>
  \<open>Parse fcd ''[1'' = Inl OutOfBounds\<close>
  \<open>Parse fcd ''{"a"'' = Inl OutOfBounds\<close>
  \<open>Parse fcd ''{"a":1'' = Inl OutOfBounds\<close>
  \<open>Parse fcd ''{"a":1,"a":2}'' = Inr (JDict [(''a'', JInt 1)], 13)\<close>
  \<open>Parse fcd ''[42,[222,"dasda]",15],12,3,4]'' =
     Inr (JList [JInt 42, JList [JInt 222, JString ''dasda]'', JInt 15],
                 JInt 12, JInt 3, JInt 4], 29)\<close>
  by (simp_all add: run_defs)

section \<open>Concrete scenarios\<close>

text \<open>
  C8. The nested list of the demonstration harness parses as a whole (29 characters)
  into a list of five elements, the second of which is the list of \<open>222\<close>, the string
  \<^verbatim>\<open>dasda]\<close> and \<open>15\<close>: the bracket inside the quoted string closes neither list.
\<close>

theorem Parse_nested_list:
  \<open>Parse no_double ''[42,[222,"dasda]",15],12,3,4]'' =
     Inr (JList [JInt 42, JList [JInt 222, JString ''dasda]'', JInt 15],
                 JInt 12, JInt 3, JInt 4],
          length ''[42,[222,"dasda]",15],12,3,4]'')\<close>
  by code_simp

section \<open>Inputs on which the code departs from its description\<close>

text \<open>
  C4. The NUL written in the literal of whitespace characters ends the literal when it
  is measured, so NUL is not in the set that is skipped: \<open>Parse\<close> accepts \<^verbatim>\<open>1\<close>, and
  returns null with the count 0 for a NUL followed by \<^verbatim>\<open>1\<close>.
\<close>

theorem Parse_NUL_not_skipped:
  "c_str ws_literal = [CHR '' '', LF, CR, TAB, VT, FF] \<and>
   Parse no_double ''1'' = Inr (JInt 1, 1) \<and>
   Parse no_double (NUL # ''1'') = Inr (JNull, 0)"
  by code_simp

text \<open>
  C9. After an element, a key or a value that ends exactly at the end of the input, the
  comparison of \<^verbatim>\<open>json[i]\<close> with the separator reads at position
  \<^verbatim>\<open>json.size()\<close>, outside the slice.
\<close>

theorem Parse_lookahead_out_of_bounds:
  \<open>Parse no_double ''[1'' = Inl OutOfBounds \<and>
   Parse no_double ''{"a"'' = Inl OutOfBounds \<and>
   Parse no_double ''{"a":1'' = Inl OutOfBounds\<close>
  by code_simp

section \<open>The numeral branch\<close>

subsection \<open>The matcher finds conforming prefixes only\<close>

lemma star_match_sound:
  "star_match as s k = Some x \<Longrightarrow>
   \<exists>u v. s = u @ v \<and> list_all (\<lambda>c. in_class c as) u \<and> k v = Some x"
proof (induction s)
  case Nil
  then show ?case by simp
next
  case (Cons c cs)
  show ?case
  proof (cases "in_class c as \<and> star_match as cs k \<noteq> None")
    case True
    then obtain u v where "cs = u @ v" "list_all (\<lambda>c. in_class c as) u" "k v = Some x"
      using Cons by (auto split: option.splits)
    then have "c # cs = (c # u) @ v \<and> list_all (\<lambda>c. in_class c as) (c # u) \<and> k v = Some x"
      using True by simp
    then show ?thesis by blast
  next
    case False
    then have "k (c # cs) = Some x"
      using Cons.prems by (auto split: option.splits if_splits)
    then have "c # cs = [] @ (c # cs) \<and> list_all (\<lambda>c. in_class c as) [] \<and> k (c # cs) = Some x"
      by simp
    then show ?thesis by blast
  qed
qed

lemma re_match_sound:
  "re_match r s k = Some x \<Longrightarrow> \<exists>u v. s = u @ v \<and> u \<in> lang r \<and> k v = Some x"
proof (induction r arbitrary: s k x)
  case (RClass as)
  then obtain c cs where s: "s = c # cs" "in_class c as" "k cs = Some x"
    by (cases s) (auto split: if_splits)
  then have "s = [c] @ cs \<and> [c] \<in> lang (RClass as) \<and> k cs = Some x"
    by simp
  then show ?case by blast
next
  case (RSeq a b)
  from RSeq.prems have "re_match a s (\<lambda>s'. re_match b s' k) = Some x" by simp
  from RSeq.IH(1) [OF this] obtain u1 v1 where
    1: "s = u1 @ v1" "u1 \<in> lang a" "re_match b v1 k = Some x" by blast
  from RSeq.IH(2) [OF 1(3)] obtain u2 v2 where
    2: "v1 = u2 @ v2" "u2 \<in> lang b" "k v2 = Some x" by blast
  have "s = (u1 @ u2) @ v2 \<and> u1 @ u2 \<in> lang (RSeq a b) \<and> k v2 = Some x"
    using 1 2 by auto
  then show ?case by blast
next
  case (ROpt a)
  show ?case
  proof (cases "re_match a s k")
    case None
    then have "k s = Some x" using ROpt.prems by simp
    then have "s = [] @ s \<and> [] \<in> lang (ROpt a) \<and> k s = Some x" by simp
    then show ?thesis by blast
  next
    case (Some y)
    then have "re_match a s k = Some x" using ROpt.prems by simp
    from ROpt.IH [OF this] obtain u v where "s = u @ v" "u \<in> lang a" "k v = Some x"
      by blast
    then have "s = u @ v \<and> u \<in> lang (ROpt a) \<and> k v = Some x"
      by simp
    then show ?thesis by blast
  qed
next
  case (RStar as)
  then have "star_match as s k = Some x" by simp
  from star_match_sound [OF this] obtain u v where
    "s = u @ v" "list_all (\<lambda>c. in_class c as) u" "k v = Some x" by blast
  then have "s = u @ v \<and> u \<in> lang (RStar as) \<and> k v = Some x"
    by simp
  then show ?case by blast
next
  case (RPlus as)
  then obtain c cs where s: "s = c # cs" "in_class c as" "star_match as cs k = Some x"
    by (cases s) (auto split: if_splits)
  from star_match_sound [OF s(3)] obtain u v where
    "cs = u @ v" "list_all (\<lambda>c. in_class c as) u" "k v = Some x" by blast
  then have "s = (c # u) @ v \<and> c # u \<in> lang (RPlus as) \<and> k v = Some x"
    using s by simp
  then show ?case by blast
qed

lemma match_here_sound:
  assumes "match_here r s = Some n"
  shows "n \<le> length s \<and> take n s \<in> lang r"
proof -
  from assms have "re_match r s (\<lambda>rest. Some (length s - length rest)) = Some n"
    by (simp add: match_here_def)
  from re_match_sound [OF this]
  obtain u v where "s = u @ v" "u \<in> lang r" "Some (length s - length v) = Some n"
    by blast
  then show ?thesis by auto
qed

lemma star_match_greedy:
  assumes "\<And>r. k r \<noteq> None"
  shows "star_match as s k = k (dropWhile (\<lambda>c. in_class c as) s)"
proof (induction s)
  case Nil
  show ?case by simp
next
  case (Cons c cs)
  show ?case
  proof (cases "in_class c as")
    case True
    obtain y where "k (dropWhile (\<lambda>c. in_class c as) cs) = Some y"
      using assms [of "dropWhile (\<lambda>c. in_class c as) cs"] by auto
    then show ?thesis using True Cons by simp
  next
    case False
    then show ?thesis by simp
  qed
qed


subsection \<open>The match of the numeral pattern is the greedy scan\<close>

lemma in_class_digit [simp]: "in_class c [Range (CHR ''0'') (CHR ''9'')] = is_digit c"
  by (simp add: in_class_def is_digit_def)

lemma in_class_sign [simp]: "in_class c [Lit (CHR ''+''), Lit (CHR ''-'')] = is_sign c"
  by (auto simp: in_class_def is_sign_def)

lemma in_class_exp [simp]: "in_class c [Lit (CHR ''e''), Lit (CHR ''E'')] = is_exp c"
  by (auto simp: in_class_def is_exp_def)

lemma in_class_dot [simp]: "in_class c [Lit (CHR ''.'')] = (c = CHR ''.'')"
  by (auto simp: in_class_def)

lemma digit_other:
  "is_digit c \<Longrightarrow> \<not> is_sign c" "is_digit c \<Longrightarrow> \<not> is_exp c" "is_digit c \<Longrightarrow> c \<noteq> CHR ''.''"
  "is_exp c \<Longrightarrow> c \<noteq> CHR ''.''" "is_exp c \<Longrightarrow> \<not> is_sign c"
  by (auto simp: is_digit_def is_sign_def is_exp_def)

lemma plus_digits_greedy:
  assumes "\<And>r. k r \<noteq> None"
  shows "re_match (RPlus [Range (CHR ''0'') (CHR ''9'')]) s k =
     (if starts_digit s then k (dropWhile is_digit s) else None)"
  using star_match_greedy [OF assms, of "[Range (CHR ''0'') (CHR ''9'')]"]
  by (cases s) (simp_all add: starts_digit_def)

lemma opt_sign_digits:
  assumes "\<And>r. k r \<noteq> None"
  shows "re_match (RSeq (ROpt (RClass [Lit (CHR ''+''), Lit (CHR ''-'')]))
            (RPlus [Range (CHR ''0'') (CHR ''9'')])) s k =
     (if starts_digit (skip_sign s) then k (dropWhile is_digit (skip_sign s)) else None)"
proof (cases s)
  case Nil
  then show ?thesis by (simp add: skip_sign_def starts_digit_def)
next
  case (Cons c t)
  show ?thesis
  proof (cases "is_sign c")
    case True
    then have "\<not> starts_digit s" using Cons digit_other(1) by (auto simp: starts_digit_def)
    then show ?thesis
      using Cons True plus_digits_greedy [OF assms]
      by (auto simp: skip_sign_def split: option.splits)
  next
    case False
    then show ?thesis
      using Cons plus_digits_greedy [OF assms]
      by (simp add: skip_sign_def)
  qed
qed

lemma exp_greedy:
  assumes "\<And>r. k r \<noteq> None"
  shows "re_match (ROpt (RSeq (RClass [Lit (CHR ''e''), Lit (CHR ''E'')])
            (RSeq (ROpt (RClass [Lit (CHR ''+''), Lit (CHR ''-'')]))
                  (RPlus [Range (CHR ''0'') (CHR ''9'')])))) s k = k (exp_rest s)"
proof (cases s)
  case Nil
  then show ?thesis using assms [of "[]"] by (auto simp: exp_rest_def)
next
  case (Cons c t)
  have inner: "re_match (RSeq (RClass [Lit (CHR ''e''), Lit (CHR ''E'')])
            (RSeq (ROpt (RClass [Lit (CHR ''+''), Lit (CHR ''-'')]))
                  (RPlus [Range (CHR ''0'') (CHR ''9'')]))) s k =
      (if is_exp c \<and> starts_digit (skip_sign t) then k (dropWhile is_digit (skip_sign t))
       else None)"
    using opt_sign_digits [OF assms, of t] Cons by simp
  show ?thesis
  proof (cases "is_exp c \<and> starts_digit (skip_sign t)")
    case True
    obtain y where "k (dropWhile is_digit (skip_sign t)) = Some y"
      using assms [of "dropWhile is_digit (skip_sign t)"] by auto
    then show ?thesis
      using True inner Cons by (simp add: exp_rest_def del: re_match.simps(2))
  next
    case False
    then have "re_match (RSeq (RClass [Lit (CHR ''e''), Lit (CHR ''E'')])
            (RSeq (ROpt (RClass [Lit (CHR ''+''), Lit (CHR ''-'')]))
                  (RPlus [Range (CHR ''0'') (CHR ''9'')]))) s k = None"
      using inner by auto
    moreover have "exp_rest s = s"
      using False Cons by (auto simp: exp_rest_def)
    ultimately show ?thesis
      by (simp del: re_match.simps(2))
  qed
qed

lemma frac_greedy:
  assumes "\<And>r. k r \<noteq> None"
  shows "re_match (ROpt (RSeq (RClass [Lit (CHR ''.'')]) (RStar [Range (CHR ''0'') (CHR ''9'')]))) s k
     = k (frac_rest s)"
proof (cases s)
  case Nil
  then show ?thesis using assms [of "[]"] by (auto simp: frac_rest_def)
next
  case (Cons c t)
  show ?thesis
  proof (cases "c = CHR ''.''")
    case True
    obtain y where "k (dropWhile is_digit t) = Some y"
      using assms [of "dropWhile is_digit t"] by auto
    then show ?thesis
      using True Cons star_match_greedy [OF assms, of "[Range (CHR ''0'') (CHR ''9'')]" t]
      by (simp add: frac_rest_def)
  next
    case False
    then show ?thesis using Cons by (simp add: frac_rest_def)
  qed
qed

lemma match_here_num:
  "match_here num_re s =
     (if starts_digit (skip_sign s) then Some (length s - length (num_rest s)) else None)"
proof -
  let ?kf = "\<lambda>rest. Some (length s - length rest)"
  let ?E = "ROpt (RSeq (RClass [Lit (CHR ''e''), Lit (CHR ''E'')])
            (RSeq (ROpt (RClass [Lit (CHR ''+''), Lit (CHR ''-'')]))
                  (RPlus [Range (CHR ''0'') (CHR ''9'')])))"
  let ?F = "ROpt (RSeq (RClass [Lit (CHR ''.'')]) (RStar [Range (CHR ''0'') (CHR ''9'')]))"
  let ?kE = "\<lambda>s3. re_match ?E s3 ?kf"
  let ?kF = "\<lambda>s2. re_match ?F s2 ?kE"
  have kE: "?kE = (\<lambda>s3. ?kf (exp_rest s3))"
    by (rule ext, rule exp_greedy) simp
  have kF: "?kF = (\<lambda>s2. ?kf (exp_rest (frac_rest s2)))"
    unfolding kE by (rule ext, rule frac_greedy) simp
  have "match_here num_re s =
      re_match (RSeq (ROpt (RClass [Lit (CHR ''+''), Lit (CHR ''-'')]))
            (RPlus [Range (CHR ''0'') (CHR ''9'')])) s ?kF"
    by (simp add: match_here_def num_re_def)
  also have "\<dots> = (if starts_digit (skip_sign s)
      then ?kf (exp_rest (frac_rest (dropWhile is_digit (skip_sign s)))) else None)"
    unfolding kF by (rule opt_sign_digits) simp
  finally show ?thesis by (simp add: num_rest_def)
qed


lemma lang_opt_sign:
  "us \<in> lang (ROpt (RClass [Lit (CHR ''+''), Lit (CHR ''-'')])) \<longleftrightarrow>
     us = [] \<or> (\<exists>c. us = [c] \<and> is_sign c)"
  by auto

lemma lang_plus_digits:
  "ud \<in> lang (RPlus [Range (CHR ''0'') (CHR ''9'')]) \<longleftrightarrow> ud \<noteq> [] \<and> list_all is_digit ud"
  by simp

lemma lang_frac:
  "uf \<in> lang (ROpt (RSeq (RClass [Lit (CHR ''.'')]) (RStar [Range (CHR ''0'') (CHR ''9'')]))) \<longleftrightarrow>
     uf = [] \<or> (\<exists>fd. uf = CHR ''.'' # fd \<and> list_all is_digit fd)"
  by auto

lemma lang_exp:
  "ue \<in> lang (ROpt (RSeq (RClass [Lit (CHR ''e''), Lit (CHR ''E'')])
            (RSeq (ROpt (RClass [Lit (CHR ''+''), Lit (CHR ''-'')]))
                  (RPlus [Range (CHR ''0'') (CHR ''9'')])))) \<longleftrightarrow>
     ue = [] \<or> (\<exists>e es ed. ue = e # es @ ed \<and> is_exp e \<and>
        (es = [] \<or> (\<exists>c. es = [c] \<and> is_sign c)) \<and> ed \<noteq> [] \<and> list_all is_digit ed)"
  (is "ue \<in> lang (ROpt ?body) \<longleftrightarrow> ue = [] \<or> ?rhs")
proof -
  have "ue \<in> lang ?body \<longleftrightarrow> ?rhs"
  proof
    assume "ue \<in> lang ?body"
    then obtain u1 r where 1: "ue = u1 @ r" "u1 \<in> lang (RClass [Lit (CHR ''e''), Lit (CHR ''E'')])"
      "r \<in> lang (RSeq (ROpt (RClass [Lit (CHR ''+''), Lit (CHR ''-'')]))
                  (RPlus [Range (CHR ''0'') (CHR ''9'')]))"
      unfolding lang.simps(2) by blast
    from 1(3) obtain es ed where 2: "r = es @ ed"
      "es \<in> lang (ROpt (RClass [Lit (CHR ''+''), Lit (CHR ''-'')]))"
      "ed \<in> lang (RPlus [Range (CHR ''0'') (CHR ''9'')])"
      unfolding lang.simps(2) by blast
    from 1(2) obtain e where 3: "u1 = [e]" "is_exp e"
      by auto
    have "ue = e # es @ ed \<and> is_exp e \<and> (es = [] \<or> (\<exists>c. es = [c] \<and> is_sign c)) \<and>
        ed \<noteq> [] \<and> list_all is_digit ed"
      using 1(1) 2 3 by (simp add: lang_opt_sign)
    then show ?rhs by blast
  next
    assume ?rhs
    then obtain e es ed where r: "ue = e # es @ ed" "is_exp e"
      "es = [] \<or> (\<exists>c. es = [c] \<and> is_sign c)" "ed \<noteq> []" "list_all is_digit ed"
      by blast
    have a: "[e] \<in> lang (RClass [Lit (CHR ''e''), Lit (CHR ''E'')])"
      using r(2) by simp
    have b: "es \<in> lang (ROpt (RClass [Lit (CHR ''+''), Lit (CHR ''-'')]))"
      using r(3) by (simp only: lang_opt_sign)
    have c: "ed \<in> lang (RPlus [Range (CHR ''0'') (CHR ''9'')])"
      using r(4,5) by simp
    have "es @ ed \<in> lang (RSeq (ROpt (RClass [Lit (CHR ''+''), Lit (CHR ''-'')]))
                  (RPlus [Range (CHR ''0'') (CHR ''9'')]))"
      unfolding lang.simps(2) using b c by blast
    then have "[e] @ es @ ed \<in> lang ?body"
      unfolding lang.simps(2) [of "RClass [Lit (CHR ''e''), Lit (CHR ''E'')]"] using a by blast
    then show "ue \<in> lang ?body" using r(1) by simp
  qed
  then show ?thesis by (simp del: lang.simps(2))
qed

lemma dropWhile_digits_append:
  "list_all is_digit ud \<Longrightarrow> dropWhile is_digit (ud @ w) = dropWhile is_digit w"
  by (induction ud) auto

lemma dropWhile_not_digit: "\<not> starts_digit w \<Longrightarrow> dropWhile is_digit w = w"
  by (cases w) (auto simp: starts_digit_def)

lemma starts_digit_append: "ud \<noteq> [] \<Longrightarrow> list_all is_digit ud \<Longrightarrow> starts_digit (ud @ w)"
  by (cases ud) (auto simp: starts_digit_def)

lemma skip_sign_le: "length (skip_sign w) \<le> length w"
  by (cases w) (auto simp: skip_sign_def)

lemma frac_rest_le: "length (frac_rest w) \<le> length w"
  by (cases w) (auto simp: frac_rest_def intro: le_SucI length_dropWhile_le)

lemma exp_rest_le: "length (exp_rest w) \<le> length w"
proof (cases w)
  case Nil
  then show ?thesis by (simp add: exp_rest_def)
next
  case (Cons c t)
  have "length (dropWhile is_digit (skip_sign t)) \<le> length t"
    using length_dropWhile_le [of is_digit "skip_sign t"] skip_sign_le [of t] by simp
  then show ?thesis using Cons by (simp add: exp_rest_def)
qed

lemma skip_sign_numeral:
  assumes "us = [] \<or> (\<exists>c. us = [c] \<and> is_sign c)" and "ud \<noteq> []" and "list_all is_digit ud"
  shows "skip_sign (us @ ud @ w) = ud @ w"
proof -
  obtain d ds where ud: "ud = d # ds" "is_digit d"
    using assms(2,3) by (cases ud) auto
  show ?thesis
    using assms(1) ud digit_other(1) [OF ud(2)] by (auto simp: skip_sign_def)
qed

lemma exp_absorb:
  assumes "ue = [] \<or> (\<exists>e es ed. ue = e # es @ ed \<and> is_exp e \<and>
        (es = [] \<or> (\<exists>c. es = [c] \<and> is_sign c)) \<and> ed \<noteq> [] \<and> list_all is_digit ed)"
  shows "length (exp_rest (ue @ v)) \<le> length v"
proof (cases "ue = []")
  case True
  then show ?thesis by (simp add: exp_rest_le)
next
  case False
  then obtain e es ed where ue: "ue = e # es @ ed" "is_exp e"
    "es = [] \<or> (\<exists>c. es = [c] \<and> is_sign c)" "ed \<noteq> []" "list_all is_digit ed"
    using assms by blast
  have sk: "skip_sign (es @ ed @ v) = ed @ v"
    by (rule skip_sign_numeral [OF ue(3,4,5)])
  have "exp_rest (ue @ v) = dropWhile is_digit v"
    using ue(2) starts_digit_append [OF ue(4,5), of v] dropWhile_digits_append [OF ue(5), of v]
    by (simp add: ue(1) exp_rest_def sk)
  then show ?thesis by (simp add: length_dropWhile_le)
qed

lemma not_starts_digit_exp:
  assumes "ue = [] \<or> (\<exists>e es ed. ue = e # es @ ed \<and> is_exp e \<and>
        (es = [] \<or> (\<exists>c. es = [c] \<and> is_sign c)) \<and> ed \<noteq> [] \<and> list_all is_digit ed)"
    and "ue \<noteq> []"
  shows "\<not> starts_digit (ue @ v)" and "frac_rest (ue @ v) = ue @ v"
  using assms digit_other(2,4) by (auto simp: starts_digit_def frac_rest_def)

lemma frac_absorb:
  assumes "uf = [] \<or> (\<exists>fd. uf = CHR ''.'' # fd \<and> list_all is_digit fd)"
    and "ue = [] \<or> (\<exists>e es ed. ue = e # es @ ed \<and> is_exp e \<and>
        (es = [] \<or> (\<exists>c. es = [c] \<and> is_sign c)) \<and> ed \<noteq> [] \<and> list_all is_digit ed)"
  shows "length (exp_rest (frac_rest (uf @ ue @ v))) \<le> length v"
proof (cases "ue = []")
  case True
  have "length (frac_rest (uf @ v)) \<le> length v"
  proof (cases "uf = []")
    case True
    then show ?thesis by (simp add: frac_rest_le)
  next
    case False
    then obtain fd where "uf = CHR ''.'' # fd" "list_all is_digit fd"
      using assms(1) by blast
    then show ?thesis
      by (simp add: frac_rest_def dropWhile_digits_append length_dropWhile_le)
  qed
  then show ?thesis
    using True exp_rest_le [of "frac_rest (uf @ v)"] by simp
next
  case False
  note ne = not_starts_digit_exp [OF assms(2) False, of v]
  have "frac_rest (uf @ ue @ v) = ue @ v"
  proof (cases "uf = []")
    case True
    then show ?thesis using ne(2) by simp
  next
    case False
    then obtain fd where "uf = CHR ''.'' # fd" "list_all is_digit fd"
      using assms(1) by blast
    then show ?thesis
      using ne(1) by (simp add: frac_rest_def dropWhile_digits_append dropWhile_not_digit)
  qed
  then show ?thesis
    using exp_absorb [OF assms(2), of v] by simp
qed

lemma digits_absorb:
  assumes "list_all is_digit ud"
    and "uf = [] \<or> (\<exists>fd. uf = CHR ''.'' # fd \<and> list_all is_digit fd)"
    and "ue = [] \<or> (\<exists>e es ed. ue = e # es @ ed \<and> is_exp e \<and>
        (es = [] \<or> (\<exists>c. es = [c] \<and> is_sign c)) \<and> ed \<noteq> [] \<and> list_all is_digit ed)"
  shows "length (exp_rest (frac_rest (dropWhile is_digit (ud @ uf @ ue @ v)))) \<le> length v"
proof (cases "starts_digit (uf @ ue @ v)")
  case False
  then show ?thesis
    using frac_absorb [OF assms(2,3), of v]
    by (simp add: dropWhile_digits_append [OF assms(1)] dropWhile_not_digit)
next
  case True
  have "uf = []"
    using True assms(2) digit_other(3) [of "CHR ''.''"] by (auto simp: starts_digit_def)
  moreover have "ue = []"
    using True calculation not_starts_digit_exp(1) [OF assms(3), of v] by auto
  ultimately have "dropWhile is_digit (ud @ uf @ ue @ v) = dropWhile is_digit v"
    by (simp add: dropWhile_digits_append [OF assms(1)])
  moreover have "length (exp_rest (frac_rest (dropWhile is_digit v))) \<le> length v"
    using exp_rest_le [of "frac_rest (dropWhile is_digit v)"]
      frac_rest_le [of "dropWhile is_digit v"] length_dropWhile_le [of is_digit v]
    by linarith
  ultimately show ?thesis by simp
qed

lemma lang_num_re_prefix:
  assumes "u \<in> lang num_re"
  shows "starts_digit (skip_sign (u @ v)) \<and> length (num_rest (u @ v)) \<le> length v"
proof -
  from assms obtain us r1 where 1: "u = us @ r1"
    "us \<in> lang (ROpt (RClass [Lit (CHR ''+''), Lit (CHR ''-'')]))"
    "r1 \<in> lang (RSeq (RPlus [Range (CHR ''0'') (CHR ''9'')])
      (RSeq (ROpt (RSeq (RClass [Lit (CHR ''.'')]) (RStar [Range (CHR ''0'') (CHR ''9'')])))
         (ROpt (RSeq (RClass [Lit (CHR ''e''), Lit (CHR ''E'')])
              (RSeq (ROpt (RClass [Lit (CHR ''+''), Lit (CHR ''-'')]))
                   (RPlus [Range (CHR ''0'') (CHR ''9'')]))))))"
    unfolding num_re_def lang.simps(2) by blast
  from 1(3) obtain ud r2 where 2: "r1 = ud @ r2"
    "ud \<in> lang (RPlus [Range (CHR ''0'') (CHR ''9'')])"
    "r2 \<in> lang (RSeq (ROpt (RSeq (RClass [Lit (CHR ''.'')]) (RStar [Range (CHR ''0'') (CHR ''9'')])))
         (ROpt (RSeq (RClass [Lit (CHR ''e''), Lit (CHR ''E'')])
              (RSeq (ROpt (RClass [Lit (CHR ''+''), Lit (CHR ''-'')]))
                   (RPlus [Range (CHR ''0'') (CHR ''9'')])))))"
    unfolding lang.simps(2) by blast
  from 2(3) obtain uf ue where 3: "r2 = uf @ ue"
    "uf \<in> lang (ROpt (RSeq (RClass [Lit (CHR ''.'')]) (RStar [Range (CHR ''0'') (CHR ''9'')])))"
    "ue \<in> lang (ROpt (RSeq (RClass [Lit (CHR ''e''), Lit (CHR ''E'')])
              (RSeq (ROpt (RClass [Lit (CHR ''+''), Lit (CHR ''-'')]))
                   (RPlus [Range (CHR ''0'') (CHR ''9'')]))))"
    unfolding lang.simps(2) by blast
  note s = 1(2) [unfolded lang_opt_sign]
  note d = 2(2) [unfolded lang_plus_digits]
  note f = 3(2) [unfolded lang_frac]
  note e = 3(3) [unfolded lang_exp]
  have u: "u @ v = us @ ud @ uf @ ue @ v"
    using 1(1) 2(1) 3(1) by simp
  have sk: "skip_sign (u @ v) = ud @ uf @ ue @ v"
    unfolding u using d by (intro skip_sign_numeral [OF s]) simp_all
  have "starts_digit (skip_sign (u @ v))"
    unfolding sk using d by (intro starts_digit_append) simp_all
  moreover have "length (num_rest (u @ v)) \<le> length v"
    unfolding num_rest_def sk using d by (intro digits_absorb f e) simp
  ultimately show ?thesis ..
qed

lemma numeral_prefix_match:
  assumes "take k json \<in> lang num_re"
  shows "\<exists>n. match_here num_re json = Some n \<and> numeral_prefix json n"
proof -
  have "starts_digit (skip_sign json)"
    using lang_num_re_prefix [OF assms, of "drop k json"] by simp
  then have m: "match_here num_re json = Some (length json - length (num_rest json))"
    by (simp add: match_here_num)
  let ?n = "length json - length (num_rest json)"
  have "\<forall>m \<le> length json. take m json \<in> lang num_re \<longrightarrow> m \<le> ?n"
  proof (intro allI impI)
    fix m assume "m \<le> length json" and "take m json \<in> lang num_re"
    from lang_num_re_prefix [OF this(2), of "drop m json"]
    have "length (num_rest json) \<le> length json - m" by simp
    then show "m \<le> ?n" using \<open>m \<le> length json\<close> by linarith
  qed
  then have "numeral_prefix json ?n"
    using match_here_sound [OF m] by (simp add: numeral_prefix_def)
  then show ?thesis using m by blast
qed


subsection \<open>The numeral branch of \<open>Parse\<close>\<close>

lemma numeral_dispatch:
  assumes "starts_digit (skip_sign json)"
  shows "json \<noteq> []" and "json ! 0 \<notin> set (c_str ws_literal)"
    and "is_digit (json ! 0) \<or> json ! 0 = CHR ''+'' \<or> json ! 0 = CHR ''-''"
proof -
  obtain c t where j: "json = c # t"
    using assms by (cases json) (auto simp: skip_sign_def starts_digit_def)
  have c: "is_digit c \<or> is_sign c"
    using assms j by (auto simp: skip_sign_def starts_digit_def split: if_splits)
  show "json \<noteq> []" using j by simp
  show "is_digit (json ! 0) \<or> json ! 0 = CHR ''+'' \<or> json ! 0 = CHR ''-''"
    using c j by (auto simp: is_sign_def)
  show "json ! 0 \<notin> set (c_str ws_literal)"
    using c j
    by (auto simp: ws_set is_sign_def is_digit_def LF_def CR_def TAB_def VT_def FF_def)
qed

lemma Parse_numeral_branch:
  assumes "match_here num_re json = Some n"
  shows "Parse fcd json =
     Inr (case TryParseNum_int (take n json) of
            Some num \<Rightarrow> (JInt num, n)
          | None \<Rightarrow>
              (case fcd (take n json) of
                 Some num \<Rightarrow> (JDouble num, n)
               | None \<Rightarrow> (JNull, 0)))"
proof -
  have sd: "starts_digit (skip_sign json)"
    using assms by (simp add: match_here_num split: if_splits)
  note d = numeral_dispatch [OF sd]
  obtain c t where j: "json = c # t"
    using d(1) by (cases json) auto
  have n: "n \<le> length json"
    using match_here_sound [OF assms] by simp
  have rs: "regex_search num_re json = Some (take n json)"
    using assms unfolding j by simp
  have ff: "find_first_not_of json (c_str ws_literal) = Some 0"
    using d(2) unfolding j by simp
  have "Parse fcd json = Inr (parse_num fcd json)"
    using d(1,3) by (subst Parse.simps) (simp add: ff skips_def)
  then show ?thesis
    using n by (simp add: parse_num_def rs min_absorb2 split: option.splits)
qed

text \<open>
  C3, as amended. If some prefix of the input conforms to the numeral pattern, then
  \<open>Parse\<close> interprets the longest such prefix and nothing else: it returns the
  \<^verbatim>\<open>int\<close> or, failing that, the \<^verbatim>\<open>double\<close> that the prefix converts to, with the
  length of the prefix as count, and it returns null with the count 0 when neither
  conversion accepts the prefix.
\<close>

theorem Parse_numeral_prefix:
  assumes "take k json \<in> lang num_re"
  shows "\<exists>n. numeral_prefix json n \<and>
     Parse fcd json =
       Inr (case TryParseNum_int (take n json) of
              Some num \<Rightarrow> (JInt num, n)
            | None \<Rightarrow>
                (case fcd (take n json) of
                   Some num \<Rightarrow> (JDouble num, n)
                 | None \<Rightarrow> (JNull, 0)))"
proof -
  from numeral_prefix_match [OF assms] obtain n where
    n: "match_here num_re json = Some n" "numeral_prefix json n" by blast
  show ?thesis
    using n(2) Parse_numeral_branch [OF n(1), of fcd] by blast
qed

theorem Parse_numeral_prefix_witness:
  "take 2 ''-12,x'' \<in> lang num_re \<and> numeral_prefix ''-12,x'' 3 \<and>
   Parse no_double ''-12,x'' = Inr (JInt (- 12), 3)"
proof -
  have m: "match_here num_re ''-1'' = Some 2"
    by code_simp
  have h: "take 2 ''-12,x'' \<in> lang num_re"
    using match_here_sound [OF m] by simp
  have p: "Parse no_double ''-12,x'' = Inr (JInt (- 12), 3)"
    by code_simp
  from Parse_numeral_prefix [OF h, of no_double] obtain n where
    n: "numeral_prefix ''-12,x'' n"
      "Parse no_double ''-12,x'' =
        Inr (case TryParseNum_int (take n ''-12,x'') of
               Some num \<Rightarrow> (JInt num, n)
             | None \<Rightarrow>
                 (case no_double (take n ''-12,x'') of
                    Some num \<Rightarrow> (JDouble num, n)
                  | None \<Rightarrow> (JNull, 0)))"
    by blast
  have "n = 3"
    using n(2) unfolding p by (auto split: option.splits)
  then show ?thesis
    using h n(1) p by simp
qed

text \<open>
  The claim C3 as it is stated fails in two ways. No prefix of \<^verbatim>\<open>-x1\<close> conforms,
  yet the search, which is not anchored at the start of the input, finds \<^verbatim>\<open>1\<close> at
  offset 2 and \<open>Parse\<close> returns its value with the count 1. The whole of \<^verbatim>\<open>1e999\<close>
  conforms, yet neither conversion accepts it and \<open>Parse\<close> returns null with the
  count 0.
\<close>

theorem Parse_numeral_prefix_counterexample:
  "match_here num_re ''-x1'' = None \<and>
   Parse no_double ''-x1'' = Inr (JInt 1, 1) \<and>
   match_here num_re ''1e999'' = Some 5 \<and>
   Parse no_double ''1e999'' = Inr (JNull, 0)"
  by code_simp

end
